theory Spec2Isabelle
  imports Main "HOL-Library.Word" "HOL-Library.Multiset"
begin

unbundle bit_operations_syntax

section \<open>Byte views (byteview.go)\<close>

text \<open>
  \<open>ByteView\<close> is a struct with the one field \<open>b []byte\<close>. \<open>Len\<close> is \<open>len(v.b)\<close>.
  \<open>cloneBytes\<close> allocates a slice of the same length and copies into it; values are
  immutable here, so the copy is the same list of bytes.
\<close>

datatype ByteView = ByteView (b: "char list")

definition ByteView_Len :: "ByteView \<Rightarrow> int" where
  "ByteView_Len v = int (length (b v))"

definition cloneBytes :: "char list \<Rightarrow> char list" where
  "cloneBytes bs = bs"

definition ByteSlice :: "ByteView \<Rightarrow> char list" where
  "ByteSlice v = cloneBytes (b v)"

section \<open>The LRU engine (lru/lru.go)\<close>

text \<open>
  A Go \<open>string\<close> is a sequence of bytes and \<open>len\<close> counts bytes, so keys are HOL
  strings (\<open>char\<close> is a byte). The interface \<open>Value\<close> has the single method
  \<open>Len() int\<close>; the engine is polymorphic in the value type \<open>'v\<close> and every operation
  that measures a value takes the method as its first argument \<open>Len\<close>.

  \<open>entry\<close> is the struct \<open>{key, value}\<close>. The recency list \<open>ll\<close> is written front
  first. The index \<open>cache\<close> maps a key to the list element that holds its entry; an
  element is identified with the entry it carries. The counters are \<open>int64\<close> in the
  source; they count bytes of data held in memory and are modelled by unbounded integers.
  The callback \<open>OnEvicted\<close> is optional; what it does is a change of the program state
  outside the engine, which the model carries in the field \<open>outside\<close>. The mutex is not
  modelled: every operation runs from lock to unlock without interruption.
\<close>

type_synonym 'v entry = "string \<times> 'v"

record ('v, 'w) Cache =
  maxBytes :: int
  nbytes :: int
  ll :: "'v entry list"
  cache :: "string \<rightharpoonup> 'v entry"
  OnEvicted :: "(string \<Rightarrow> 'v \<Rightarrow> 'w \<Rightarrow> 'w) option"
  outside :: 'w

definition New :: "int \<Rightarrow> (string \<Rightarrow> 'v \<Rightarrow> 'w \<Rightarrow> 'w) option \<Rightarrow> 'w \<Rightarrow> ('v, 'w) Cache" where
  "New maxB onEvicted w =
     \<lparr>maxBytes = maxB, nbytes = 0, ll = [], cache = Map.empty,
      OnEvicted = onEvicted, outside = w\<rparr>"

text \<open>\<open>list.MoveToFront\<close> and the size \<open>len(key) + value.Len()\<close> of an entry.\<close>

definition MoveToFront :: "'a \<Rightarrow> 'a list \<Rightarrow> 'a list" where
  "MoveToFront ele xs = ele # remove1 ele xs"

definition entry_size :: "('v \<Rightarrow> int) \<Rightarrow> 'v entry \<Rightarrow> int" where
  "entry_size Len kv = int (length (fst kv)) + Len (snd kv)"

text \<open>\<open>Get\<close> returns \<open>(value, ok)\<close>, here an option, and the engine after the call.\<close>

definition Get :: "string \<Rightarrow> ('v, 'w) Cache \<Rightarrow> 'v option \<times> ('v, 'w) Cache" where
  "Get key c =
     (case cache c key of
        Some ele \<Rightarrow> (Some (snd ele), c\<lparr>ll := MoveToFront ele (ll c)\<rparr>)
      | None \<Rightarrow> (None, c))"

definition removeOldest :: "('v \<Rightarrow> int) \<Rightarrow> ('v, 'w) Cache \<Rightarrow> ('v, 'w) Cache" where
  "removeOldest Len c =
     (if ll c = [] then c
      else
        let kv = last (ll c);
            c1 = c\<lparr>ll := butlast (ll c),
                   cache := (cache c)(fst kv := None),
                   nbytes := nbytes c - entry_size Len kv\<rparr>
        in (case OnEvicted c1 of
              None \<Rightarrow> c1
            | Some f \<Rightarrow> c1\<lparr>outside := f (fst kv) (snd kv) (outside c1)\<rparr>))"

definition RemoveOldest :: "('v \<Rightarrow> int) \<Rightarrow> ('v, 'w) Cache \<Rightarrow> ('v, 'w) Cache" where
  "RemoveOldest Len c = removeOldest Len c"

text \<open>
  \<open>Add\<close> first stores the entry (the \<open>if\<close>/\<open>else\<close>), then runs the eviction loop
  \<open>for c.maxBytes != 0 && c.nbytes > c.maxBytes\<close>. The loop need not end (on an empty
  list \<open>removeOldest\<close> changes nothing), so it is a partial function: \<open>None\<close> means
  that \<open>Add\<close> never returns.
\<close>

definition Add_store :: "('v \<Rightarrow> int) \<Rightarrow> string \<Rightarrow> 'v \<Rightarrow> ('v, 'w) Cache \<Rightarrow> ('v, 'w) Cache" where
  "Add_store Len key val c =
     (case cache c key of
        Some ele \<Rightarrow>
          c\<lparr>ll := (fst ele, val) # remove1 ele (ll c),
            cache := (cache c)(key \<mapsto> (fst ele, val)),
            nbytes := nbytes c + (Len val - Len (snd ele))\<rparr>
      | None \<Rightarrow>
          c\<lparr>ll := (key, val) # ll c,
            cache := (cache c)(key \<mapsto> (key, val)),
            nbytes := nbytes c + (int (length key) + Len val)\<rparr>)"

partial_function (option) evict :: "('v \<Rightarrow> int) \<Rightarrow> ('v, 'w) Cache \<Rightarrow> ('v, 'w) Cache option" where
  "evict Len c =
     (if maxBytes c \<noteq> 0 \<and> nbytes c > maxBytes c then evict Len (removeOldest Len c)
      else Some c)"

definition Add :: "('v \<Rightarrow> int) \<Rightarrow> string \<Rightarrow> 'v \<Rightarrow> ('v, 'w) Cache \<Rightarrow> ('v, 'w) Cache option" where
  "Add Len key val c = evict Len (Add_store Len key val c)"

definition Len_cache :: "('v, 'w) Cache \<Rightarrow> int" where
  "Len_cache c = int (length (ll c))"

text \<open>\<open>Clear\<close>: \<open>for c.ll.Len() > 0 { c.removeOldest() }\<close>.\<close>

function Clear :: "('v \<Rightarrow> int) \<Rightarrow> ('v, 'w) Cache \<Rightarrow> ('v, 'w) Cache" where
  "Clear Len c = (if length (ll c) > 0 then Clear Len (removeOldest Len c) else c)"
  by pat_completeness auto
termination
  by (relation "measure (\<lambda>(Len, c). length (ll c))")
    (auto simp: removeOldest_def Let_def split: option.splits)

declare Clear.simps [simp del]
declare evict.simps [code]

text \<open>Sequences of operations on one engine.\<close>

datatype 'v op = OpAdd string 'v | OpGet string | OpRemoveOldest | OpClear

primrec step :: "('v \<Rightarrow> int) \<Rightarrow> 'v op \<Rightarrow> ('v, 'w) Cache \<Rightarrow> ('v, 'w) Cache option" where
  "step Len (OpAdd k v) c = Add Len k v c"
| "step Len (OpGet k) c = Some (snd (Get k c))"
| "step Len OpRemoveOldest c = Some (RemoveOldest Len c)"
| "step Len OpClear c = Some (Clear Len c)"

primrec run :: "('v \<Rightarrow> int) \<Rightarrow> 'v op list \<Rightarrow> ('v, 'w) Cache \<Rightarrow> ('v, 'w) Cache option" where
  "run Len [] c = Some c"
| "run Len (x # xs) c = (case step Len x c of None \<Rightarrow> None | Some c' \<Rightarrow> run Len xs c')"

text \<open>The consistency of list, index and byte counter, and the byte budget.\<close>

definition lru_inv :: "('v \<Rightarrow> int) \<Rightarrow> ('v, 'w) Cache \<Rightarrow> bool" where
  "lru_inv Len c \<longleftrightarrow>
     distinct (map fst (ll c)) \<and>
     (\<forall>k. cache c k = map_option (Pair k) (map_of (ll c) k)) \<and>
     nbytes c = (\<Sum>e\<leftarrow>ll c. entry_size Len e)"

definition within_budget :: "('v, 'w) Cache \<Rightarrow> bool" where
  "within_budget c \<longleftrightarrow> (0 < maxBytes c \<longrightarrow> nbytes c \<le> maxBytes c)"

text \<open>
  The keys a history accesses, in the order of the accesses: \<open>Add(k, v)\<close> accesses
  \<open>k\<close>, \<open>Get(k)\<close> accesses \<open>k\<close> when it returns \<open>ok = true\<close>. An operation
  that never returns completes no access. \<open>recent K log\<close> says that \<open>K\<close> lists its
  keys by their last occurrence in \<open>log\<close>, latest first.
\<close>

primrec accessed :: "'v op \<Rightarrow> ('v, 'w) Cache \<Rightarrow> string list" where
  "accessed (OpAdd k v) c = [k]"
| "accessed (OpGet k) c = (case fst (Get k c) of None \<Rightarrow> [] | Some v \<Rightarrow> [k])"
| "accessed OpRemoveOldest c = []"
| "accessed OpClear c = []"

primrec trace :: "('v \<Rightarrow> int) \<Rightarrow> 'v op list \<Rightarrow> ('v, 'w) Cache \<Rightarrow> string list" where
  "trace Len [] c = []"
| "trace Len (x # xs) c =
     (case step Len x c of None \<Rightarrow> [] | Some c' \<Rightarrow> accessed x c @ trace Len xs c')"

definition recent :: "'a list \<Rightarrow> 'a list \<Rightarrow> bool" where
  "recent K log \<longleftrightarrow> K = filter (\<lambda>x. x \<in> set K) (rev (remdups log))"

text \<open>A concrete history on byte views, used to run the engine.\<close>

definition demo_ops :: "ByteView op list" where
  "demo_ops =
     [OpAdd ''k1'' (ByteView ''12345678''), OpAdd ''k2'' (ByteView ''12345678''),
      OpGet ''k1'', OpAdd ''k3'' (ByteView ''abc''), OpRemoveOldest,
      OpAdd ''k1'' (ByteView ''z'')]"

section \<open>The consistent-hash ring (package consistenthash)\<close>

text \<open>
  \<open>Hash\<close> is \<open>func(data []byte) uint32\<close>. The ring \<open>Map\<close> keeps the hash function,
  the number of replicas, the slice \<open>keys\<close> of virtual-node hashes and the Go map
  \<open>hashMap\<close> from a hash to the name of its node. The conversion \<open>int(h)\<close> of a
  \<open>uint32\<close> is its unsigned value (\<open>int\<close> is 64 bits wide).

  Three functions of Go's standard library are used by the package and written out here:
  \<open>crc32.ChecksumIEEE\<close> (the reflected CRC-32 with polynomial \<open>0xEDB88320\<close>, initial
  value and final complement \<open>0xFFFFFFFF\<close>; the 32-bit register is computed on
  its unsigned value, which the steps keep below \<open>2 ^ 32\<close>), \<open>strconv.Itoa\<close> (decimal digits, with a
  sign) and \<open>sort.Search\<close> (binary search for the least index in \<open>[0, n)\<close> at which
  the predicate holds, \<open>n\<close> if there is none, for a predicate that is false and then
  true). \<open>sort.Ints\<close> sorts in increasing order; the result of sorting integers
  does not depend on the algorithm, and the model uses \<open>sort\<close>.
\<close>

type_synonym Hash = "char list \<Rightarrow> 32 word"

definition crc32_shift :: "int \<Rightarrow> int" where
  "crc32_shift c = (if odd c then (c div 2) XOR 0xEDB88320 else c div 2)"

definition crc32_update :: "char \<Rightarrow> int \<Rightarrow> int" where
  "crc32_update x c = (crc32_shift ^^ 8) (c XOR of_char x)"

definition ChecksumIEEE :: Hash where
  "ChecksumIEEE data = word_of_int ((fold crc32_update data 0xFFFFFFFF) XOR 0xFFFFFFFF)"

definition digit_char :: "nat \<Rightarrow> char" where
  "digit_char d = char_of (48 + d)"

function utoa :: "nat \<Rightarrow> string" where
  "utoa n = (if n < 10 then [digit_char n] else utoa (n div 10) @ [digit_char (n mod 10)])"
  by pat_completeness auto
termination
  by (relation "measure (\<lambda>n. n)") auto

declare utoa.simps [simp del]

definition Itoa :: "int \<Rightarrow> string" where
  "Itoa i = (if i < 0 then CHR ''-'' # utoa (nat (- i)) else utoa (nat i))"

function Search_loop :: "(nat \<Rightarrow> bool) \<Rightarrow> nat \<Rightarrow> nat \<Rightarrow> nat" where
  "Search_loop f i j =
     (if i < j then
        (let h = (i + j) div 2
         in if \<not> f h then Search_loop f (h + 1) j else Search_loop f i h)
      else i)"
  by pat_completeness auto
termination
  by (relation "measure (\<lambda>(f, i, j). j - i)") auto

declare Search_loop.simps [simp del]

definition Search :: "nat \<Rightarrow> (nat \<Rightarrow> bool) \<Rightarrow> nat" where
  "Search n f = Search_loop f 0 n"

record Map =
  hash :: Hash
  replicas :: int
  keys :: "int list"
  hashMap :: "int \<rightharpoonup> string"

definition consistenthash_New :: "int \<Rightarrow> Hash option \<Rightarrow> Map" where
  "consistenthash_New n fn =
     \<lparr>hash = (case fn of None \<Rightarrow> ChecksumIEEE | Some f \<Rightarrow> f),
      replicas = n, keys = [], hashMap = Map.empty\<rparr>"

text \<open>
  \<open>Add\<close>: for every key and every \<open>i\<close> from \<open>0\<close> below \<open>replicas\<close> the hash of
  \<open>strconv.Itoa(i) + key\<close> is appended to \<open>keys\<close> and mapped to the key; then
  \<open>keys\<close> is sorted.
\<close>

definition add_point :: "string \<Rightarrow> int \<Rightarrow> Map \<Rightarrow> Map" where
  "add_point key h m = m\<lparr>keys := keys m @ [h], hashMap := (hashMap m)(h \<mapsto> key)\<rparr>"

definition add_replica :: "string \<Rightarrow> int \<Rightarrow> Map \<Rightarrow> Map" where
  "add_replica key i m = add_point key (uint (hash m (Itoa i @ key))) m"

definition add_key :: "string \<Rightarrow> Map \<Rightarrow> Map" where
  "add_key key m = fold (add_replica key) [0..replicas m - 1] m"

definition sort_keys :: "Map \<Rightarrow> Map" where
  "sort_keys m = m\<lparr>keys := sort (keys m)\<rparr>"

definition Map_Add :: "Map \<Rightarrow> string list \<Rightarrow> Map" where
  "Map_Add m ks = sort_keys (fold add_key ks m)"

text \<open>A Go map read at a missing key gives the zero value, the empty string.\<close>

definition hashMap_at :: "Map \<Rightarrow> int \<Rightarrow> string" where
  "hashMap_at m h = (case hashMap m h of None \<Rightarrow> [] | Some node \<Rightarrow> node)"

definition Map_Get :: "Map \<Rightarrow> string \<Rightarrow> string" where
  "Map_Get m key =
     (if length (keys m) = 0 then []
      else
        let h = uint (hash m key);
            idx = Search (length (keys m)) (\<lambda>i. keys m ! i \<ge> h)
        in hashMap_at m (keys m ! (idx mod length (keys m))))"

text \<open>The ring after \<open>New(replicas, fn)\<close> and a sequence of calls of \<open>Add\<close>.\<close>

primrec add_batches :: "string list list \<Rightarrow> Map \<Rightarrow> Map" where
  "add_batches [] m = m"
| "add_batches (ks # rest) m = add_batches rest (Map_Add m ks)"

definition ring_of :: "int \<Rightarrow> Hash option \<Rightarrow> string list list \<Rightarrow> Map" where
  "ring_of n fn batches = add_batches batches (consistenthash_New n fn)"

section \<open>Proofs about the LRU engine\<close>

lemma removeOldest_ll: "ll (removeOldest Len c) = butlast (ll c)"
  by (simp add: removeOldest_def Let_def split: option.splits)

lemma lru_inv_New: "lru_inv Len (New mb cb w)"
  by (simp add: lru_inv_def New_def)

lemma distinct_fst_remove1: "distinct (map fst xs) \<Longrightarrow> distinct (map fst (remove1 e xs))"
  by (induction xs) (auto dest: notin_set_remove1 simp: image_iff)

lemma map_of_remove1:
  "distinct (map fst xs) \<Longrightarrow> (k, v) \<in> set xs \<Longrightarrow> map_of (remove1 (k, v) xs) = (map_of xs)(k := None)"
proof (induction xs)
  case Nil
  then show ?case by simp
next
  case (Cons x xs)
  show ?case
  proof (cases "x = (k, v)")
    case True
    with Cons.prems(1) have "map_of xs k = None"
      by (simp add: map_of_eq_None_iff)
    with True show ?thesis by (auto simp: fun_eq_iff)
  next
    case False
    with Cons.prems have "(k, v) \<in> set xs" "fst x \<noteq> k"
      by (auto simp: image_iff)
    with Cons False show ?thesis by (auto simp: fun_eq_iff)
  qed
qed

lemma fst_notin_remove1:
  "distinct (map fst xs) \<Longrightarrow> (k, v) \<in> set xs \<Longrightarrow> k \<notin> fst ` set (remove1 (k, v) xs)"
  using map_of_remove1 [of xs k v] by (metis fun_upd_same map_of_eq_None_iff)

lemma sum_remove1:
  "e \<in> set xs \<Longrightarrow> (\<Sum>x\<leftarrow>remove1 e xs. (f x :: int)) = (\<Sum>x\<leftarrow>xs. f x) - f e"
  by (simp add: sum_list_map_remove1)

lemma map_of_butlast:
  "distinct (map fst xs) \<Longrightarrow> xs \<noteq> [] \<Longrightarrow> map_of (butlast xs) = (map_of xs)(fst (last xs) := None)"
proof (induction xs)
  case Nil
  then show ?case by simp
next
  case (Cons x xs)
  show ?case
  proof (cases "xs = []")
    case True
    then show ?thesis by (auto simp: fun_eq_iff)
  next
    case False
    then have "last xs \<in> set xs" by simp
    with Cons.prems(1) have "fst x \<noteq> fst (last xs)" by (auto simp: image_iff)
    with Cons False show ?thesis by (auto simp: fun_eq_iff)
  qed
qed

lemma distinct_fst_butlast: "distinct (map fst xs) \<Longrightarrow> distinct (map fst (butlast xs))"
  by (induction xs) (auto simp: image_iff dest: in_set_butlastD)

lemma sum_butlast:
  "xs \<noteq> [] \<Longrightarrow> (\<Sum>x\<leftarrow>butlast xs. (f x :: int)) = (\<Sum>x\<leftarrow>xs. f x) - f (last xs)"
  by (induction xs) auto

lemma lru_inv_lookup:
  "lru_inv Len c \<Longrightarrow> cache c k = Some e \<Longrightarrow> fst e = k \<and> e \<in> set (ll c) \<and> map_of (ll c) k = Some (snd e)"
  by (auto simp: lru_inv_def dest: map_of_SomeD)

lemma lru_inv_Get: "lru_inv Len c \<Longrightarrow> lru_inv Len (snd (Get k c))"
proof (cases "cache c k")
  case None
  assume "lru_inv Len c"
  with None show ?thesis by (simp add: Get_def)
next
  case (Some e)
  assume inv: "lru_inv Len c"
  obtain v where e: "e = (k, v)" "(k, v) \<in> set (ll c)" "map_of (ll c) k = Some v"
    using lru_inv_lookup [OF inv Some] by (cases e) auto
  from inv have d: "distinct (map fst (ll c))" by (simp add: lru_inv_def)
  show ?thesis
    using inv Some e d
    by (simp add: Get_def MoveToFront_def lru_inv_def distinct_fst_remove1 sum_remove1
        map_of_remove1 fst_notin_remove1)
qed

lemma lru_inv_removeOldest: "lru_inv Len c \<Longrightarrow> lru_inv Len (removeOldest Len c)"
proof (cases "ll c = []")
  case True
  assume "lru_inv Len c"
  with True show ?thesis by (simp add: removeOldest_def)
next
  case False
  assume inv: "lru_inv Len c"
  then have d: "distinct (map fst (ll c))" by (simp add: lru_inv_def)
  show ?thesis
    using inv False
    by (simp add: removeOldest_def Let_def lru_inv_def distinct_fst_butlast sum_butlast
        map_of_butlast split: option.splits)
qed

lemma lru_inv_Add_store: "lru_inv Len c \<Longrightarrow> lru_inv Len (Add_store Len k v c)"
proof (cases "cache c k")
  case None
  assume inv: "lru_inv Len c"
  with None have "map_of (ll c) k = None" by (simp add: lru_inv_def)
  then have "k \<notin> fst ` set (ll c)" by (simp add: map_of_eq_None_iff)
  with inv None show ?thesis
    by (simp add: Add_store_def lru_inv_def entry_size_def)
next
  case (Some e)
  assume inv: "lru_inv Len c"
  obtain v0 where e: "e = (k, v0)" "(k, v0) \<in> set (ll c)" "map_of (ll c) k = Some v0"
    using lru_inv_lookup [OF inv Some] by (cases e) auto
  from inv have d: "distinct (map fst (ll c))" by (simp add: lru_inv_def)
  show ?thesis
    using inv Some e d
    by (simp add: Add_store_def lru_inv_def distinct_fst_remove1 sum_remove1
        map_of_remove1 fst_notin_remove1 entry_size_def)
qed

lemma evict_stop:
  "\<not> (maxBytes c \<noteq> 0 \<and> nbytes c > maxBytes c) \<Longrightarrow> evict Len c = Some c"
  by (subst evict.simps) (rule if_not_P)

lemma evict_step:
  "maxBytes c \<noteq> 0 \<Longrightarrow> nbytes c > maxBytes c \<Longrightarrow> evict Len c = evict Len (removeOldest Len c)"
  by (subst evict.simps) simp

lemma removeOldest_maxBytes: "maxBytes (removeOldest Len c) = maxBytes c"
  by (simp add: removeOldest_def Let_def split: option.splits)

lemma removeOldest_OnEvicted: "OnEvicted (removeOldest Len c) = OnEvicted c"
  by (simp add: removeOldest_def Let_def split: option.splits)

lemma evict_SomeD:
  "evict Len c = Some c' \<Longrightarrow>
     (\<exists>n. c' = (removeOldest Len ^^ n) c) \<and> \<not> (maxBytes c' \<noteq> 0 \<and> nbytes c' > maxBytes c')"
proof (induction rule: evict.raw_induct [rotated 1, consumes 1, case_names step])
  case (step evict' Len c c')
  note 1 = step
  show ?case
  proof (cases "maxBytes c \<noteq> 0 \<and> nbytes c > maxBytes c")
    case True
    with 1(2) have "evict' Len (removeOldest Len c) = Some c'" by simp
    from 1(1) [OF this] obtain n where "c' = (removeOldest Len ^^ n) (removeOldest Len c)"
      and stop: "\<not> (maxBytes c' \<noteq> 0 \<and> nbytes c' > maxBytes c')" by blast
    then have "c' = (removeOldest Len ^^ Suc n) c" by (simp add: funpow_swap1)
    with stop show ?thesis by blast
  next
    case False
    with 1(2) have "c' = c" by simp
    with False have "c' = (removeOldest Len ^^ 0) c" by simp
    with False \<open>c' = c\<close> show ?thesis by blast
  qed
qed

lemma funpow_removeOldest:
  "lru_inv Len c \<Longrightarrow> lru_inv Len ((removeOldest Len ^^ n) c)"
  "maxBytes ((removeOldest Len ^^ n) c) = maxBytes c"
  "OnEvicted ((removeOldest Len ^^ n) c) = OnEvicted c"
  "ll ((removeOldest Len ^^ n) c) = take (length (ll c) - n) (ll c)"
proof -
  show "lru_inv Len c \<Longrightarrow> lru_inv Len ((removeOldest Len ^^ n) c)"
    by (induction n) (simp_all add: lru_inv_removeOldest)
  show "maxBytes ((removeOldest Len ^^ n) c) = maxBytes c"
    by (induction n) (simp_all add: removeOldest_maxBytes)
  show "OnEvicted ((removeOldest Len ^^ n) c) = OnEvicted c"
    by (induction n) (simp_all add: removeOldest_OnEvicted)
  show "ll ((removeOldest Len ^^ n) c) = take (length (ll c) - n) (ll c)"
    by (induction n) (simp_all add: removeOldest_ll butlast_take)
qed





lemma New_fields: "maxBytes (New mb cb w) = mb" "nbytes (New mb cb w) = 0" "ll (New mb cb w) = []"
  by (simp_all add: New_def)

lemma Clear_Nil: "ll c = [] \<Longrightarrow> Clear Len c = c"
  by (subst Clear.simps) simp

lemma Clear_step: "ll c \<noteq> [] \<Longrightarrow> Clear Len c = Clear Len (removeOldest Len c)"
  by (subst Clear.simps) simp

lemma Clear_props:
  "lru_inv Len c \<Longrightarrow> lru_inv Len (Clear Len c)"
  "maxBytes (Clear Len c) = maxBytes c"
  "ll (Clear Len c) = []"
proof -
  show "lru_inv Len c \<Longrightarrow> lru_inv Len (Clear Len c)"
  proof (induction Len c rule: Clear.induct)
    case (1 Len c)
    then show ?case
      by (cases "ll c = []") (simp_all add: Clear_Nil Clear_step lru_inv_removeOldest)
  qed
  show "maxBytes (Clear Len c) = maxBytes c"
  proof (induction Len c rule: Clear.induct)
    case (1 Len c)
    then show ?case
      by (cases "ll c = []") (simp_all add: Clear_Nil Clear_step removeOldest_maxBytes)
  qed
  show "ll (Clear Len c) = []"
  proof (induction Len c rule: Clear.induct)
    case (1 Len c)
    then show ?case
      by (cases "ll c = []") (simp_all add: Clear_Nil Clear_step)
  qed
qed


lemma Get_fields: "maxBytes (snd (Get k c)) = maxBytes c" "nbytes (snd (Get k c)) = nbytes c"
  by (simp_all add: Get_def split: option.splits)

lemma Add_store_maxBytes: "maxBytes (Add_store Len k v c) = maxBytes c"
  by (simp add: Add_store_def split: option.splits)

lemma Add_SomeD:
  assumes "lru_inv Len c" "Add Len k v c = Some c'"
  shows "lru_inv Len c'" "maxBytes c' = maxBytes c" "within_budget c'"
    "\<exists>n. ll c' = take n (ll (Add_store Len k v c))"
proof -
  from assms(2) obtain n where n: "c' = (removeOldest Len ^^ n) (Add_store Len k v c)"
    and stop: "\<not> (maxBytes c' \<noteq> 0 \<and> nbytes c' > maxBytes c')"
    using evict_SomeD [of Len "Add_store Len k v c" c'] by (auto simp: Add_def)
  show "lru_inv Len c'"
    using n funpow_removeOldest(1) [OF lru_inv_Add_store [OF assms(1)]] by simp
  show "maxBytes c' = maxBytes c"
    using n by (simp add: funpow_removeOldest(2) Add_store_maxBytes)
  show "within_budget c'" using stop by (auto simp: within_budget_def)
  show "\<exists>n. ll c' = take n (ll (Add_store Len k v c))"
    using n funpow_removeOldest(4) by blast
qed


lemma step_SomeD:
  assumes "lru_inv Len c" "step Len x c = Some c'"
  shows "lru_inv Len c'" "maxBytes c' = maxBytes c"
proof -
  show "lru_inv Len c'"
    using assms
    by (cases x) (auto simp: Add_SomeD(1) lru_inv_Get RemoveOldest_def lru_inv_removeOldest Clear_props(1))
  show "maxBytes c' = maxBytes c"
    using assms
    by (cases x) (auto simp: Add_SomeD(2) Get_fields RemoveOldest_def removeOldest_maxBytes Clear_props(2))
qed



lemma run_SomeD:
  "lru_inv Len c \<Longrightarrow> run Len xs c = Some c' \<Longrightarrow> lru_inv Len c' \<and> maxBytes c' = maxBytes c"
proof (induction xs arbitrary: c)
  case Nil
  then show ?case by simp
next
  case (Cons x xs)
  from Cons.prems(2) obtain c1 where c1: "step Len x c = Some c1" "run Len xs c1 = Some c'"
    by (auto split: option.splits)
  from step_SomeD [OF Cons.prems(1) c1(1)] Cons.IH [OF _ c1(2)] show ?case by simp
qed





lemma Add_store_ll_hd: "lru_inv Len c \<Longrightarrow> \<exists>rest. ll (Add_store Len k v c) = (k, v) # rest"
proof (cases "cache c k")
  case None
  then show ?thesis by (simp add: Add_store_def)
next
  case (Some e)
  assume "lru_inv Len c"
  from lru_inv_lookup [OF this Some] have "fst e = k" by simp
  with Some show ?thesis by (simp add: Add_store_def)
qed




lemma Add_front:
  assumes inv: "lru_inv Len c" and a: "Add Len k v c = Some c'"
  shows "ll c' = [] \<or> hd (ll c') = (k, v)"
proof -
  from Add_store_ll_hd [OF inv, of k v] obtain rest where
    st: "ll (Add_store Len k v c) = (k, v) # rest" by blast
  from Add_SomeD(4) [OF inv a] obtain n where "ll c' = take n ((k, v) # rest)" using st by auto
  then show ?thesis by (cases n) auto
qed

lemma evict_keeps_front:
  assumes "evict Len c = Some c'" "lru_inv Len c" "ll c = e # rest"
    "maxBytes c = 0 \<or> entry_size Len e \<le> maxBytes c"
  shows "ll c' \<noteq> []"
  using assms
proof (induction "length (ll c)" arbitrary: c rest rule: less_induct)
  case less
  show ?case
  proof (cases "maxBytes c \<noteq> 0 \<and> nbytes c > maxBytes c")
    case False
    then have "evict Len c = Some c" by (rule evict_stop)
    with less.prems(1,3) show ?thesis by auto
  next
    case True
    then have ev: "evict Len (removeOldest Len c) = Some c'"
      using less.prems(1) by (simp add: evict_step)
    have "rest \<noteq> []"
    proof
      assume "rest = []"
      with less.prems(2,3) have "nbytes c = entry_size Len e" by (simp add: lru_inv_def)
      with True less.prems(4) show False by simp
    qed
    then have l: "ll (removeOldest Len c) = e # butlast rest"
      using less.prems(3) by (simp add: removeOldest_ll)
    then have "length (ll (removeOldest Len c)) < length (ll c)"
      using less.prems(3) \<open>rest \<noteq> []\<close> by simp
    from less.hyps [OF this ev lru_inv_removeOldest [OF less.prems(2)] l] less.prems(4)
    show ?thesis by (simp add: removeOldest_maxBytes)
  qed
qed

lemma Add_keeps:
  assumes inv: "lru_inv Len c" and a: "Add Len k v c = Some c'"
    and fits: "maxBytes c = 0 \<or> int (length k) + Len v \<le> maxBytes c"
  shows "ll c' \<noteq> [] \<and> hd (ll c') = (k, v)"
proof -
  from Add_store_ll_hd [OF inv, of k v] obtain rest where
    st: "ll (Add_store Len k v c) = (k, v) # rest" by blast
  from a have "evict Len (Add_store Len k v c) = Some c'" by (simp add: Add_def)
  from evict_keeps_front [OF this lru_inv_Add_store [OF inv] st] fits
  have "ll c' \<noteq> []" by (simp add: entry_size_def Add_store_maxBytes)
  with Add_front [OF inv a] show ?thesis by simp
qed

lemma Get_front:
  assumes inv: "lru_inv Len c" and g: "Get k c = (Some v, c')"
  shows "ll c' \<noteq> [] \<and> hd (ll c') = (k, v)"
proof -
  from g obtain e where e: "cache c k = Some e" "v = snd e" "c' = c\<lparr>ll := MoveToFront e (ll c)\<rparr>"
    by (auto simp: Get_def split: option.splits)
  from lru_inv_lookup [OF inv e(1)] e(2) have "e = (k, v)" by (cases e) simp
  with e(3) show ?thesis by (simp add: MoveToFront_def)
qed

lemma remdups_snoc: "remdups (xs @ [k]) = removeAll k (remdups xs) @ [k]"
  by (induction xs) auto

lemma rev_remdups_snoc: "rev (remdups (xs @ [k])) = k # removeAll k (rev (remdups xs))"
  by (simp add: remdups_snoc removeAll_filter_not_eq rev_filter)

lemma recent_touch:
  assumes "recent K log"
  shows "recent (k # removeAll k K) (log @ [k])"
proof -
  have "filter (\<lambda>x. x \<in> set (k # removeAll k K)) (removeAll k (rev (remdups log)))
      = removeAll k (filter (\<lambda>x. x \<in> set K) (rev (remdups log)))"
    by (auto simp: removeAll_filter_not_eq intro: filter_cong)
  with assms show ?thesis by (simp add: recent_def rev_remdups_snoc)
qed

lemma removeAll_last: "distinct K \<Longrightarrow> K \<noteq> [] \<Longrightarrow> removeAll (last K) K = butlast K"
  by (induction K) (auto simp: distinct_removeAll  dest: in_set_butlastD)

lemma set_butlast_distinct: "distinct K \<Longrightarrow> K \<noteq> [] \<Longrightarrow> set (butlast K) = set K - {last K}"
  using removeAll_last [of K] by (metis set_removeAll)

lemma recent_drop:
  assumes "recent K log" "distinct K"
  shows "recent (butlast K) log"
proof (cases "K = []")
  case True
  with assms show ?thesis by simp
next
  case False
  have "filter (\<lambda>x. x \<in> set (butlast K)) (rev (remdups log))
      = removeAll (last K) (filter (\<lambda>x. x \<in> set K) (rev (remdups log)))"
    by (auto simp: removeAll_filter_not_eq set_butlast_distinct [OF assms(2) False] intro: filter_cong)
  with assms False show ?thesis by (simp add: recent_def removeAll_last)
qed

lemma map_fst_remove1:
  "distinct (map fst xs) \<Longrightarrow> (k, v) \<in> set xs \<Longrightarrow> map fst (remove1 (k, v) xs) = removeAll k (map fst xs)"
proof (induction xs)
  case Nil
  then show ?case by simp
next
  case (Cons x xs)
  show ?case
  proof (cases "x = (k, v)")
    case True
    with Cons.prems(1) have "k \<notin> set (map fst xs)" by simp
    with True show ?thesis by simp
  next
    case False
    with Cons.prems have "(k, v) \<in> set xs" "fst x \<noteq> k" by (auto simp: image_iff)
    with Cons False show ?thesis by simp
  qed
qed

lemma keys_Get:
  assumes "lru_inv Len c"
  shows "map fst (ll (snd (Get k c))) =
    (case fst (Get k c) of None \<Rightarrow> map fst (ll c) | Some v \<Rightarrow> k # removeAll k (map fst (ll c)))"
proof (cases "cache c k")
  case None
  then show ?thesis by (simp add: Get_def)
next
  case (Some e)
  from lru_inv_lookup [OF assms Some] obtain v where e: "e = (k, v)" "(k, v) \<in> set (ll c)"
    by (cases e) auto
  from assms have "distinct (map fst (ll c))" by (simp add: lru_inv_def)
  with Some e show ?thesis by (simp add: Get_def MoveToFront_def map_fst_remove1)
qed

lemma keys_Add_store:
  assumes "lru_inv Len c"
  shows "map fst (ll (Add_store Len k v c)) = k # removeAll k (map fst (ll c))"
proof (cases "cache c k")
  case None
  with assms have "map_of (ll c) k = None" by (simp add: lru_inv_def)
  then have "k \<notin> set (map fst (ll c))" by (simp add: map_of_eq_None_iff)
  with None show ?thesis by (simp add: Add_store_def)
next
  case (Some e)
  from lru_inv_lookup [OF assms Some] obtain v0 where e: "e = (k, v0)" "(k, v0) \<in> set (ll c)"
    by (cases e) auto
  from assms have "distinct (map fst (ll c))" by (simp add: lru_inv_def)
  with Some e show ?thesis by (simp add: Add_store_def map_fst_remove1)
qed

lemma recent_removeOldest:
  "lru_inv Len c \<Longrightarrow> recent (map fst (ll c)) log \<Longrightarrow> recent (map fst (ll (removeOldest Len c))) log"
  using recent_drop [of "map fst (ll c)" log]
  by (simp add: removeOldest_ll map_butlast lru_inv_def)

lemma recent_funpow:
  "lru_inv Len c \<Longrightarrow> recent (map fst (ll c)) log
    \<Longrightarrow> recent (map fst (ll ((removeOldest Len ^^ n) c))) log"
  by (induction n) (simp_all add: recent_removeOldest funpow_removeOldest(1))

lemma Clear_funpow: "\<exists>n. Clear Len c = (removeOldest Len ^^ n) c"
proof (induction Len c rule: Clear.induct)
  case (1 Len c)
  show ?case
  proof (cases "ll c = []")
    case True
    then have "Clear Len c = (removeOldest Len ^^ 0) c" by (simp add: Clear_Nil)
    then show ?thesis by blast
  next
    case False
    with 1 obtain n where "Clear Len (removeOldest Len c) = (removeOldest Len ^^ n) (removeOldest Len c)"
      by auto
    with False have "Clear Len c = (removeOldest Len ^^ Suc n) c"
      by (simp add: Clear_step funpow_swap1)
    then show ?thesis by blast
  qed
qed

lemma recent_step:
  assumes inv: "lru_inv Len c" and rc: "recent (map fst (ll c)) log" and s: "step Len x c = Some c'"
  shows "recent (map fst (ll c')) (log @ accessed x c)"
proof (cases x)
  case (OpAdd k v)
  with s obtain n where "c' = (removeOldest Len ^^ n) (Add_store Len k v c)"
    using evict_SomeD [of Len "Add_store Len k v c" c'] by (auto simp: Add_def)
  moreover have "recent (map fst (ll (Add_store Len k v c))) (log @ [k])"
    using recent_touch [OF rc, of k] by (simp add: keys_Add_store [OF inv])
  ultimately show ?thesis
    using recent_funpow [OF lru_inv_Add_store [OF inv]] OpAdd by simp
next
  case (OpGet k)
  with s have c': "c' = snd (Get k c)" by simp
  show ?thesis
    using recent_touch [OF rc, of k] rc OpGet
    by (simp add: c' keys_Get [OF inv] split: option.splits)
next
  case OpRemoveOldest
  with s rc inv show ?thesis by (auto simp: RemoveOldest_def recent_removeOldest)
next
  case OpClear
  with s Clear_funpow [of Len c] recent_funpow [OF inv rc] show ?thesis by auto
qed

lemma recent_run:
  "lru_inv Len c \<Longrightarrow> recent (map fst (ll c)) log \<Longrightarrow> run Len xs c = Some c'
     \<Longrightarrow> recent (map fst (ll c')) (log @ trace Len xs c)"
proof (induction xs arbitrary: c log)
  case Nil
  then show ?case by simp
next
  case (Cons x xs)
  from Cons.prems(3) obtain c1 where c1: "step Len x c = Some c1" "run Len xs c1 = Some c'"
    by (auto split: option.splits)
  from Cons.IH [OF step_SomeD(1) [OF Cons.prems(1) c1(1)] recent_step [OF Cons.prems(1,2) c1(1)] c1(2)]
  show ?case using c1(1) by simp
qed

lemma lru_inv_dom: "lru_inv Len c \<Longrightarrow> dom (cache c) = set (map fst (ll c))"
proof -
  assume inv: "lru_inv Len c"
  have "k \<in> dom (cache c) \<longleftrightarrow> k \<in> fst ` set (ll c)" for k
  proof -
    have "k \<in> dom (cache c) \<longleftrightarrow> map_of (ll c) k \<noteq> None"
      using inv by (simp add: lru_inv_def dom_def)
    then show ?thesis by (simp add: map_of_eq_None_iff)
  qed
  then show ?thesis by auto
qed

text \<open>
  Claim C9 (recency order), as the code has it. In every state reached from \<open>New\<close>:
  the keys of the recency list from front to back are the keys now in the index, in the
  order of their last completed access, latest first; after \<open>Get(k)\<close> returns
  \<open>ok = true\<close> the entry of \<open>k\<close> is at the front; and after \<open>Add(k, v)\<close> returns the
  entry \<open>(k, v)\<close> is at the front when \<open>maxBytes = 0\<close> or
  \<open>len(k) + v.Len() \<le> maxBytes\<close>. (A larger entry is evicted by \<open>Add\<close> itself.)
\<close>

theorem lru_recency_order:
  assumes r: "run Len ops (New mb cb w) = Some c"
  shows "map fst (ll c) =
           filter (\<lambda>k. k \<in> dom (cache c)) (rev (remdups (trace Len ops (New mb cb w)))) \<and>
         (\<forall>k v c'. Get k c = (Some v, c') \<longrightarrow> ll c' \<noteq> [] \<and> hd (ll c') = (k, v)) \<and>
         (\<forall>k v c'. Add Len k v c = Some c' \<longrightarrow> (mb = 0 \<or> int (length k) + Len v \<le> mb) \<longrightarrow>
              ll c' \<noteq> [] \<and> hd (ll c') = (k, v))"
proof (intro conjI)
  from run_SomeD [OF lru_inv_New r] have inv: "lru_inv Len c" and m: "maxBytes c = mb"
    by (simp_all add: New_fields)
  have "recent (map fst (ll (New mb cb w))) []" by (simp add: recent_def New_fields)
  from recent_run [OF lru_inv_New this r]
  show "map fst (ll c) =
           filter (\<lambda>k. k \<in> dom (cache c)) (rev (remdups (trace Len ops (New mb cb w))))"
    unfolding recent_def lru_inv_dom [OF inv] append_Nil .
  show "\<forall>k v c'. Get k c = (Some v, c') \<longrightarrow> ll c' \<noteq> [] \<and> hd (ll c') = (k, v)"
    using Get_front [OF inv] by blast
  show "\<forall>k v c'. Add Len k v c = Some c' \<longrightarrow> (mb = 0 \<or> int (length k) + Len v \<le> mb) \<longrightarrow>
           ll c' \<noteq> [] \<and> hd (ll c') = (k, v)"
    using Add_keeps [OF inv] m by blast
qed

theorem lru_recency_order_witness:
  "trace ByteView_Len demo_ops (New 20 None ()) = [''k1'', ''k2'', ''k1'', ''k3'', ''k1''] \<and>
   map_option (\<lambda>c. map fst (ll c)) (run ByteView_Len demo_ops (New 20 None ())) =
     Some [''k1'', ''k3''] \<and>
   (\<exists>c. run ByteView_Len demo_ops (New 20 None ()) = Some c \<and>
      map fst (ll c) = filter (\<lambda>k. k \<in> dom (cache c))
         (rev (remdups (trace ByteView_Len demo_ops (New 20 None ())))) \<and>
      (\<exists>v c'. Get ''k3'' c = (Some v, c') \<and> hd (ll c') = (''k3'', v)) \<and>
      (\<exists>c'. Add ByteView_Len ''k9'' (ByteView ''x'') c = Some c' \<and>
         hd (ll c') = (''k9'', ByteView ''x'')))"
proof -
  have t: "trace ByteView_Len demo_ops (New 20 None ()) = [''k1'', ''k2'', ''k1'', ''k3'', ''k1'']"
    by code_simp
  have r: "map_option (\<lambda>c. map fst (ll c)) (run ByteView_Len demo_ops (New 20 None ())) =
     Some [''k1'', ''k3'']"
    by code_simp
  then obtain c where c: "run ByteView_Len demo_ops (New 20 None ()) = Some c" by auto
  have "map_option (\<lambda>c. fst (Get ''k3'' c)) (run ByteView_Len demo_ops (New 20 None ())) =
     Some (Some (ByteView ''abc''))"
    by code_simp
  with c have g: "Get ''k3'' c = (Some (ByteView ''abc''), snd (Get ''k3'' c))"
    by (simp add: prod_eq_iff)
  have "map_option (\<lambda>c. map_option nbytes (Add ByteView_Len ''k9'' (ByteView ''x'') c))
      (run ByteView_Len demo_ops (New 20 None ())) = Some (Some 11)"
    by code_simp
  with c obtain c9 where a: "Add ByteView_Len ''k9'' (ByteView ''x'') c = Some c9" by auto
  have fits: "(20::int) = 0 \<or> int (length ''k9'') + ByteView_Len (ByteView ''x'') \<le> 20"
    by (simp add: ByteView_Len_def)
  note main = lru_recency_order [OF c]
  from main have 1: "map fst (ll c) = filter (\<lambda>k. k \<in> dom (cache c))
         (rev (remdups (trace ByteView_Len demo_ops (New 20 None ()))))" by blast
  from main g have 2: "\<exists>v c'. Get ''k3'' c = (Some v, c') \<and> hd (ll c') = (''k3'', v)" by blast
  from main a fits have 3: "\<exists>c'. Add ByteView_Len ''k9'' (ByteView ''x'') c = Some c' \<and>
         hd (ll c') = (''k9'', ByteView ''x'')" by blast
  from c 1 2 3 have "\<exists>c. run ByteView_Len demo_ops (New 20 None ()) = Some c \<and>
      map fst (ll c) = filter (\<lambda>k. k \<in> dom (cache c))
         (rev (remdups (trace ByteView_Len demo_ops (New 20 None ())))) \<and>
      (\<exists>v c'. Get ''k3'' c = (Some v, c') \<and> hd (ll c') = (''k3'', v)) \<and>
      (\<exists>c'. Add ByteView_Len ''k9'' (ByteView ''x'') c = Some c' \<and>
         hd (ll c') = (''k9'', ByteView ''x''))" by blast
  with t r show ?thesis by blast
qed

text \<open>
  The claim as the specification words it fails for \<open>Add\<close>: with a budget of 10 bytes,
  adding an entry of 11 bytes returns with an empty recency list, so the key is not at
  its front.
\<close>

theorem lru_add_front_counterexample:
  "map_option ll (Add ByteView_Len ''key'' (ByteView ''12345678'') (New 10 None ())) = Some []"
  by code_simp

end
